theory Spec2Isabelle
  imports Main "HOL-Library.Multiset" "HOL-Library.Signed_Division"
begin

section \<open>Formatting: the fragments of \<open>fmt\<close> the program uses\<close>

text \<open>
  Go strings are byte sequences; they are modelled as \<open>string\<close> (a list of \<open>char\<close>).
  The verb \<open>%s\<close> copies its argument and \<open>%d\<close> renders an \<open>int\<close> in decimal, with a
  leading minus sign for a negative value. Go's \<open>int\<close> is modelled as \<open>int\<close>: the program
  never computes a sum, difference or product that could leave the machine range (the only
  arithmetic is \<open>n % 2\<close> and the increment of a loop counter bounded by a small constant).
\<close>

definition digit_char :: "nat \<Rightarrow> char" where
  "digit_char d = ''0123456789'' ! d"

fun dec_nat :: "nat \<Rightarrow> string" where
  "dec_nat n = (if n < 10 then [digit_char n] else dec_nat (n div 10) @ [digit_char (n mod 10)])"

declare dec_nat.simps [simp del]

definition fmt_d :: "int \<Rightarrow> string" where
  "fmt_d i = (if i < 0 then CHR ''-'' # dec_nat (nat (- i)) else dec_nat (nat i))"

definition newline :: char where
  "newline = CHR 0x0A"

section \<open>\<open>main.go\<close>: greeting and parity\<close>

text \<open>
  \<^verbatim>\<open>
  func greet(name string) string {
      if name == "" { name = "World" }
      return fmt.Sprintf("Hello, %s!", name)
  }
  \<close>
\<close>

definition greet :: "string \<Rightarrow> string" where
  "greet name = (let name' = (if name = [] then ''World'' else name)
                 in ''Hello, '' @ name' @ ''!'')"

text \<open>
  \<^verbatim>\<open>func isEven(n int) bool { return n%2 == 0 }\<close>
  Go's \<open>%\<close> truncates towards zero: the remainder has the sign of the dividend. That is
  \<open>smod\<close> on \<open>int\<close>, not HOL's \<open>mod\<close>.
\<close>

definition isEven :: "int \<Rightarrow> bool" where
  "isEven n = (n smod 2 = 0)"

text \<open>
  The number-checking loop of \<open>main\<close>; standard output is the list of the strings written,
  one per \<open>Printf\<close> call.
  \<^verbatim>\<open>
  for i := 1; i <= 5; i++ {
      if isEven(i) { fmt.Printf("%d is even\n", i) } else { fmt.Printf("%d is odd\n", i) }
  }
  \<close>
\<close>

function number_loop :: "int \<Rightarrow> string list \<Rightarrow> string list" where
  "number_loop i stdout =
     (if i \<le> 5
      then number_loop (i + 1)
             (stdout @ [if isEven i then fmt_d i @ '' is even'' @ [newline]
                        else fmt_d i @ '' is odd'' @ [newline]])
      else stdout)"
  by pat_completeness auto
termination
  by (relation "measure (\<lambda>(i, stdout). nat (6 - i))") auto

declare number_loop.simps [simp del]

definition main_number_lines :: "string list" where
  "main_number_lines = number_loop 1 []"

section \<open>\<open>README.md\<close>: the parallel workers example\<close>

text \<open>
  \<^verbatim>\<open>
  func main() {
      var wg sync.WaitGroup
      messages := make(chan string, 3)
      for i := 1; i <= 3; i++ {
          wg.Add(1)
          go worker(i, messages, &wg)
      }
      go func() {
          wg.Wait()
          close(messages)
      }()
      for msg := range messages {
          fmt.Println(msg)
      }
  }

  func worker(id int, ch chan<- string, wg *sync.WaitGroup) {
      defer wg.Done()
      ch <- fmt.Sprintf("Worker %d completed task", id)
  }
  \<close>
  The program is modelled as a transition system in which the goroutines interleave: a
  state records where each goroutine stands and the shared objects (the wait-group
  counter, the buffer of the channel and whether it is closed, standard output). The two
  constants of the source are parameters of the model: the loop bound \<open>n\<close> (the number of
  workers, 3 in the source) and the capacity \<open>cap\<close> of the channel (3 in the source). The
  loop counter never leaves the machine range as long as \<open>n\<close> is below the largest \<open>int\<close>.
\<close>

definition println :: "string \<Rightarrow> string" where
  "println m = m @ [newline]"

definition worker_msg :: "int \<Rightarrow> string" where
  "worker_msg i = ''Worker '' @ fmt_d i @ '' completed task''"

text \<open>
  Where \<open>main\<close> stands: at the loop test with counter \<open>i\<close>, before \<open>wg.Add(1)\<close>, before
  \<open>go worker(i, \<dots>)\<close>, before the \<open>go\<close> statement of the closer, at the receive of the
  \<open>range\<close> loop, before \<open>fmt.Println(msg)\<close> with the received \<open>msg\<close>, or returned.
\<close>

datatype main_pc = MFor int | MAdd int | MGo int | MGoCloser | MRange | MPrintln string | MExit

text \<open>
  A worker is at its send, then at the deferred \<open>wg.Done()\<close>, then returned. The closer
  goroutine does not exist yet, is at \<open>wg.Wait()\<close>, at \<open>close(messages)\<close>, or returned.
\<close>

datatype worker_pc = WSend | WDone | WExit

datatype closer_pc = CNone | CWait | CClose | CExit

record state =
  mainpc :: main_pc
  workers :: "(int \<times> worker_pc) list"
  closer :: closer_pc
  wg :: int
  messages :: "string list"
  closed :: bool
  stdout :: "string list"
  panicked :: bool

definition init :: state where
  "init = \<lparr>mainpc = MFor 1, workers = [], closer = CNone, wg = 0, messages = [],
           closed = False, stdout = [], panicked = False\<rparr>"

text \<open>
  One step of one goroutine; \<open>None\<close> when the goroutine is blocked or has returned. The
  worker goroutines are numbered in the order of their launch, from 0.

  \<^item> The receive of the \<open>range\<close> loop takes the oldest buffered value; on an empty buffer
    it ends the loop when the channel is closed and blocks otherwise.
  \<^item> A send on a closed channel panics. Otherwise it appends to the buffer when there is
    room; when there is none it blocks, unless the channel has no buffer at all and the
    receiver is waiting, in which case the value is handed over directly.
  \<^item> \<open>wg.Done()\<close> decrements the counter and panics should it become negative;
    \<open>wg.Wait()\<close> blocks until the counter is 0.
  \<^item> Closing a closed channel panics.
  \<^item> A panic ends the whole program, and so does the return of \<open>main\<close>: no goroutine takes
    a step afterwards.
\<close>

datatype actor = Main | Worker nat | Closer

definition main_step :: "int \<Rightarrow> state \<Rightarrow> state option" where
  "main_step n s =
     (case mainpc s of
        MFor i \<Rightarrow> Some (s\<lparr>mainpc := (if i \<le> n then MAdd i else MGoCloser)\<rparr>)
      | MAdd i \<Rightarrow> Some (s\<lparr>wg := wg s + 1, mainpc := MGo i\<rparr>)
      | MGo i \<Rightarrow> Some (s\<lparr>workers := workers s @ [(i, WSend)], mainpc := MFor (i + 1)\<rparr>)
      | MGoCloser \<Rightarrow> Some (s\<lparr>closer := CWait, mainpc := MRange\<rparr>)
      | MRange \<Rightarrow>
          (case messages s of
             m # ms \<Rightarrow> Some (s\<lparr>messages := ms, mainpc := MPrintln m\<rparr>)
           | [] \<Rightarrow> if closed s then Some (s\<lparr>mainpc := MExit\<rparr>) else None)
      | MPrintln m \<Rightarrow> Some (s\<lparr>stdout := stdout s @ [println m], mainpc := MRange\<rparr>)
      | MExit \<Rightarrow> None)"

definition worker_step :: "nat \<Rightarrow> nat \<Rightarrow> state \<Rightarrow> state option" where
  "worker_step cap k s =
     (if k < length (workers s)
      then (case workers s ! k of
              (i, WSend) \<Rightarrow>
                if closed s then Some (s\<lparr>panicked := True\<rparr>)
                else if length (messages s) < cap
                then Some (s\<lparr>messages := messages s @ [worker_msg i],
                             workers := (workers s)[k := (i, WDone)]\<rparr>)
                else if mainpc s = MRange \<and> messages s = []
                then Some (s\<lparr>mainpc := MPrintln (worker_msg i),
                             workers := (workers s)[k := (i, WDone)]\<rparr>)
                else None
            | (i, WDone) \<Rightarrow>
                if wg s - 1 < 0 then Some (s\<lparr>panicked := True\<rparr>)
                else Some (s\<lparr>wg := wg s - 1, workers := (workers s)[k := (i, WExit)]\<rparr>)
            | (i, WExit) \<Rightarrow> None)
      else None)"

definition closer_step :: "state \<Rightarrow> state option" where
  "closer_step s =
     (case closer s of
        CNone \<Rightarrow> None
      | CWait \<Rightarrow> if wg s = 0 then Some (s\<lparr>closer := CClose\<rparr>) else None
      | CClose \<Rightarrow>
          if closed s then Some (s\<lparr>panicked := True\<rparr>)
          else Some (s\<lparr>closed := True, closer := CExit\<rparr>)
      | CExit \<Rightarrow> None)"

definition fire :: "int \<Rightarrow> nat \<Rightarrow> actor \<Rightarrow> state \<Rightarrow> state option" where
  "fire n cap a s =
     (if panicked s \<or> mainpc s = MExit then None
      else (case a of
              Main \<Rightarrow> main_step n s
            | Worker k \<Rightarrow> worker_step cap k s
            | Closer \<Rightarrow> closer_step s))"

text \<open>
  An execution follows a schedule, the list of the goroutines that step; a state is
  reachable when some schedule leads to it from the initial state.
\<close>

fun run :: "int \<Rightarrow> nat \<Rightarrow> actor list \<Rightarrow> state \<Rightarrow> state option" where
  "run n cap [] s = Some s"
| "run n cap (a # as) s = (case fire n cap a s of None \<Rightarrow> None | Some s' \<Rightarrow> run n cap as s')"

inductive reachable :: "int \<Rightarrow> nat \<Rightarrow> state \<Rightarrow> bool" for n :: int and cap :: nat where
  reach_init: "reachable n cap init"
| reach_step: "reachable n cap s \<Longrightarrow> fire n cap a s = Some s' \<Longrightarrow> reachable n cap s'"

section \<open>Invariant and termination measure of the workers example\<close>

text \<open>
  The identifiers of the workers launched so far, as the position of \<open>main\<close> determines
  them; the number of workers that have not returned; the results of the workers that
  have not sent yet; the values received but not printed, or buffered.
\<close>

definition spawned :: "int \<Rightarrow> main_pc \<Rightarrow> int list" where
  "spawned n pc = (case pc of MFor i \<Rightarrow> [1..i - 1] | MAdd i \<Rightarrow> [1..i - 1] | MGo i \<Rightarrow> [1..i - 1]
                   | _ \<Rightarrow> [1..n])"

definition live :: "(int \<times> worker_pc) list \<Rightarrow> int" where
  "live ws = int (length (filter (\<lambda>w. snd w \<noteq> WExit) ws))"

definition unsent :: "(int \<times> worker_pc) list \<Rightarrow> string list" where
  "unsent ws = map (\<lambda>w. worker_msg (fst w)) (filter (\<lambda>w. snd w = WSend) ws)"

definition in_flight :: "state \<Rightarrow> string list" where
  "in_flight s = (case mainpc s of MPrintln m \<Rightarrow> [m] | _ \<Rightarrow> []) @ messages s"

definition loop_ok :: "int \<Rightarrow> main_pc \<Rightarrow> bool" where
  "loop_ok n pc = (case pc of MFor i \<Rightarrow> 1 \<le> i \<and> (i \<le> n + 1 \<or> i = 1)
                    | MAdd i \<Rightarrow> 1 \<le> i \<and> i \<le> n | MGo i \<Rightarrow> 1 \<le> i \<and> i \<le> n | _ \<Rightarrow> True)"

definition before_closer :: "main_pc \<Rightarrow> bool" where
  "before_closer pc = (case pc of MRange \<Rightarrow> False | MPrintln m \<Rightarrow> False | MExit \<Rightarrow> False | _ \<Rightarrow> True)"

definition add_pending :: "main_pc \<Rightarrow> int" where
  "add_pending pc = (case pc of MGo i \<Rightarrow> 1 | _ \<Rightarrow> 0)"

definition inv :: "int \<Rightarrow> nat \<Rightarrow> state \<Rightarrow> bool" where
  "inv n cap s \<longleftrightarrow>
     \<not> panicked s
   \<and> map fst (workers s) = spawned n (mainpc s)
   \<and> loop_ok n (mainpc s)
   \<and> wg s = live (workers s) + add_pending (mainpc s)
   \<and> mset (stdout s) + mset (map println (in_flight s)) + mset (map println (unsent (workers s)))
       = mset (map (\<lambda>i. println (worker_msg i)) (spawned n (mainpc s)))
   \<and> (closer s = CNone \<longleftrightarrow> before_closer (mainpc s))
   \<and> (closed s \<longleftrightarrow> closer s = CExit)
   \<and> (closer s = CClose \<or> closer s = CExit \<longrightarrow> live (workers s) = 0)
   \<and> (mainpc s = MExit \<longrightarrow> closed s \<and> messages s = [])
   \<and> length (messages s) \<le> cap"

text \<open>
  An upper bound on the number of steps still to come: every step of every goroutine
  lowers it.
\<close>

definition main_weight :: "int \<Rightarrow> main_pc \<Rightarrow> nat" where
  "main_weight n pc =
     (case pc of MFor i \<Rightarrow> 7 * nat (n + 1 - i) + 5 | MAdd i \<Rightarrow> 7 * nat (n + 1 - i) + 4
      | MGo i \<Rightarrow> 7 * nat (n + 1 - i) + 3 | MGoCloser \<Rightarrow> 4 | MRange \<Rightarrow> 1 | MPrintln m \<Rightarrow> 2
      | MExit \<Rightarrow> 0)"

definition worker_weight :: "worker_pc \<Rightarrow> nat" where
  "worker_weight p = (case p of WSend \<Rightarrow> 4 | WDone \<Rightarrow> 1 | WExit \<Rightarrow> 0)"

definition closer_weight :: "closer_pc \<Rightarrow> nat" where
  "closer_weight p = (case p of CNone \<Rightarrow> 0 | CWait \<Rightarrow> 2 | CClose \<Rightarrow> 1 | CExit \<Rightarrow> 0)"

definition work :: "(int \<times> worker_pc) list \<Rightarrow> nat" where
  "work ws = sum_list (map (\<lambda>w. worker_weight (snd w)) ws)"

definition steps_left :: "int \<Rightarrow> state \<Rightarrow> nat" where
  "steps_left n s = main_weight n (mainpc s) + work (workers s) + closer_weight (closer s)
                    + 2 * length (messages s)"



text \<open>
  The results handed over so far, in the order of the sends: the lines printed, then the
  value received and about to be printed, then the buffered ones. \<open>sent_by a s\<close> is the
  result that a step of goroutine \<open>a\<close> hands over in state \<open>s\<close>, if any.
\<close>

definition results :: "state \<Rightarrow> string list" where
  "results s = stdout s @ map println (in_flight s)"

definition sent_by :: "actor \<Rightarrow> state \<Rightarrow> string list" where
  "sent_by a s =
     (case a of
        Worker k \<Rightarrow>
          if k < length (workers s) \<and> snd (workers s ! k) = WSend
          then [println (worker_msg (fst (workers s ! k)))] else []
      | _ \<Rightarrow> [])"

text \<open>
  Two executions for reference: one of the program as it stands in the source, in which
  worker 3 sends first, and the one of the program without workers.
\<close>

definition demo_schedule :: "actor list" where
  "demo_schedule =
     [Main, Main, Main, Main, Main, Main, Main, Main, Main, Main, Main,
      Worker 2, Worker 0, Worker 1, Worker 2, Worker 0, Worker 1,
      Closer, Closer, Main, Main, Main, Main, Main, Main, Main]"

definition demo_final :: state where
  "demo_final =
     \<lparr>mainpc = MExit, workers = [(1, WExit), (2, WExit), (3, WExit)], closer = CExit, wg = 0,
      messages = [], closed = True,
      stdout = [println ''Worker 3 completed task'', println ''Worker 1 completed task'',
                println ''Worker 2 completed task''],
      panicked = False\<rparr>"

definition empty_schedule :: "actor list" where
  "empty_schedule = [Main, Main, Closer, Closer, Main]"

definition empty_final :: state where
  "empty_final = \<lparr>mainpc = MExit, workers = [], closer = CExit, wg = 0, messages = [],
                   closed = True, stdout = [], panicked = False\<rparr>"

text \<open>
  An execution of the program as it stands in the source in which all three workers send
  and return before \<open>main\<close> receives anything: the state in which the closer is about to
  close the channel, and the state after it has.
\<close>

definition buffered_schedule :: "actor list" where
  "buffered_schedule =
     [Main, Main, Main, Main, Main, Main, Main, Main, Main, Main, Main,
      Worker 0, Worker 1, Worker 2, Worker 0, Worker 1, Worker 2, Closer]"

definition buffered_pre :: state where
  "buffered_pre =
     \<lparr>mainpc = MRange, workers = [(1, WExit), (2, WExit), (3, WExit)], closer = CClose, wg = 0,
      messages = [''Worker 1 completed task'', ''Worker 2 completed task'',
                  ''Worker 3 completed task''],
      closed = False, stdout = [], panicked = False\<rparr>"

definition buffered_post :: state where
  "buffered_post = buffered_pre\<lparr>closed := True, closer := CExit\<rparr>"

text \<open>
  Three families of states met on the way of an execution that prints the results in a
  chosen order: \<open>main\<close> in its launch loop with \<open>j\<close> workers launched and none of them
  run yet; \<open>main\<close> and the closer both waiting between two deliveries; the end.
\<close>

definition looping :: "nat \<Rightarrow> state" where
  "looping j = \<lparr>mainpc = MFor (int j + 1), workers = map (\<lambda>i. (i, WSend)) [1..int j],
                 closer = CNone, wg = int j, messages = [], closed = False, stdout = [],
                 panicked = False\<rparr>"

definition receiving :: "(int \<times> worker_pc) list \<Rightarrow> string list \<Rightarrow> state" where
  "receiving ws out = \<lparr>mainpc = MRange, workers = ws, closer = CWait, wg = live ws,
                        messages = [], closed = False, stdout = out, panicked = False\<rparr>"

definition finished :: "(int \<times> worker_pc) list \<Rightarrow> string list \<Rightarrow> state" where
  "finished ws out = \<lparr>mainpc = MExit, workers = ws, closer = CExit, wg = 0,
                       messages = [], closed = True, stdout = out, panicked = False\<rparr>"

section \<open>Properties of the greeting and parity functions\<close>

lemma smod_two_eq_0_iff: "n smod 2 = 0 \<longleftrightarrow> 2 dvd (n::int)"
proof (cases "n = 0")
  case True
  then show ?thesis by simp
next
  case False
  then have "n smod 2 = 0 \<longleftrightarrow> \<bar>n\<bar> mod 2 = 0"
    by (simp add: signed_modulo_int_def sgn_if)
  also have "\<dots> \<longleftrightarrow> 2 dvd n"
    by presburger
  finally show ?thesis .
qed

lemma isEven_iff_dvd: "isEven n \<longleftrightarrow> 2 dvd n"
  by (simp add: isEven_def smod_two_eq_0_iff)

text \<open>
  Claim C8. For a non-empty name \<open>greet\<close> returns \<open>Hello, \<close> followed by the name and an
  exclamation mark; for the empty name it returns \<open>Hello, World!\<close>; in either case the
  result starts with the greeting prefix and ends with the exclamation mark.
\<close>

theorem greet_spec:
  "(name \<noteq> [] \<longrightarrow> greet name = ''Hello, '' @ name @ ''!'')
   \<and> greet [] = ''Hello, World!''
   \<and> (\<exists>body. body \<noteq> [] \<and> greet name = ''Hello, '' @ body @ ''!'')"
  by (simp add: greet_def)

theorem greet_spec_witness:
  "''Gopher'' \<noteq> [] \<and> greet ''Gopher'' = ''Hello, Gopher!''"
  using greet_spec [of "''Gopher''"] by simp

text \<open>
  Claim C9. For every integer, negative ones included, \<open>isEven\<close> holds exactly when the
  number is divisible by two, although the remainder Go computes for a negative odd
  number is \<open>-1\<close> and not \<open>1\<close>.
\<close>

theorem isEven_correct:
  "(isEven n \<longleftrightarrow> 2 dvd n) \<and> isEven (- n) = isEven n \<and> (\<not> isEven n \<and> n < 0 \<longrightarrow> n smod 2 = - 1)"
proof -
  have "n smod 2 = - 1" if "\<not> 2 dvd n" "n < 0"
  proof -
    have "\<bar>n\<bar> mod 2 = 1" using that by presburger
    then show ?thesis using that by (simp add: signed_modulo_int_def sgn_if)
  qed
  then show ?thesis
    by (simp add: isEven_iff_dvd)
qed

theorem isEven_correct_witness:
  "\<not> isEven (- 7) \<and> (- 7 :: int) < 0 \<and> (- 7 :: int) smod 2 = - 1 \<and> isEven (- 4)"
  using isEven_correct [of "- 7"] isEven_correct [of "- 4"] by simp

text \<open>
  Claim C10. The number-checking loop of \<open>main\<close> writes exactly five lines, one for each
  \<open>i\<close> from 1 to 5 in increasing order, \<open>i is even\<close> when \<open>isEven i\<close> holds and
  \<open>i is odd\<close> otherwise: odd, even, odd, even, odd.
\<close>

theorem main_number_lines_eq:
  "main_number_lines =
     [''1 is odd'' @ [newline], ''2 is even'' @ [newline], ''3 is odd'' @ [newline],
      ''4 is even'' @ [newline], ''5 is odd'' @ [newline]]
   \<and> main_number_lines =
     map (\<lambda>i. fmt_d i @ (if isEven i then '' is even'' else '' is odd'') @ [newline])
       [1, 2, 3, 4, 5]"
  by (simp add: main_number_lines_def number_loop.simps isEven_iff_dvd fmt_d_def
      dec_nat.simps digit_char_def)

section \<open>The invariant holds in every reachable state\<close>

lemma live_simps [simp]:
  "live [] = 0"
  "live (ws @ vs) = live ws + live vs"
  "live (w # ws) = (if snd w \<noteq> WExit then 1 else 0) + live ws"
  by (simp_all add: live_def)

lemma unsent_simps [simp]:
  "unsent [] = []"
  "unsent (ws @ vs) = unsent ws @ unsent vs"
  "unsent (w # ws) = (if snd w = WSend then [worker_msg (fst w)] else []) @ unsent ws"
  by (simp_all add: unsent_def)

lemma live_nonneg: "0 \<le> live ws"
  by (simp add: live_def)

lemma live_update:
  assumes "k < length ws"
  shows "live (ws[k := y]) = live ws - (if snd (ws ! k) \<noteq> WExit then 1 else 0)
                               + (if snd y \<noteq> WExit then 1 else 0)"
proof -
  have "ws = take k ws @ ws ! k # drop (Suc k) ws"
    using assms by (simp add: id_take_nth_drop)
  then have "live ws = live (take k ws) + (if snd (ws ! k) \<noteq> WExit then 1 else 0) + live (drop (Suc k) ws)"
    by (metis live_simps(2,3) add.assoc)
  moreover have "live (ws[k := y]) = live (take k ws) + (if snd y \<noteq> WExit then 1 else 0) + live (drop (Suc k) ws)"
    using assms by (simp add: upd_conv_take_nth_drop)
  ultimately show ?thesis by simp
qed

lemma live_pos:
  assumes "k < length ws" "snd (ws ! k) \<noteq> WExit"
  shows "0 < live ws"
proof -
  have "ws ! k \<in> set (filter (\<lambda>w. snd w \<noteq> WExit) ws)"
    using assms by simp
  then have "filter (\<lambda>w. snd w \<noteq> WExit) ws \<noteq> []"
    by (metis empty_iff empty_set)
  then show ?thesis by (simp add: live_def)
qed

lemma unsent_update:
  assumes "k < length ws"
  shows "mset (unsent (ws[k := y])) + (if snd (ws ! k) = WSend then {#worker_msg (fst (ws ! k))#} else {#})
         = mset (unsent ws) + (if snd y = WSend then {#worker_msg (fst y)#} else {#})"
proof -
  have "ws = take k ws @ ws ! k # drop (Suc k) ws"
    using assms by (simp add: id_take_nth_drop)
  then have "unsent ws = unsent (take k ws) @ (if snd (ws ! k) = WSend then [worker_msg (fst (ws ! k))] else []) @ unsent (drop (Suc k) ws)"
    by (metis unsent_simps(2,3))
  moreover have "unsent (ws[k := y]) = unsent (take k ws) @ (if snd y = WSend then [worker_msg (fst y)] else []) @ unsent (drop (Suc k) ws)"
    using assms by (simp add: upd_conv_take_nth_drop)
  ultimately show ?thesis by simp
qed

lemma map_fst_update:
  assumes "k < length ws" "fst (ws ! k) = i"
  shows "map fst (ws[k := (i, p)]) = map fst ws"
  using assms by (simp add: map_update list_update_same_conv)

lemma inv_init: "inv n cap init"
  by (simp add: inv_def init_def spawned_def loop_ok_def add_pending_def in_flight_def before_closer_def)

lemmas pc_defs = spawned_def loop_ok_def add_pending_def in_flight_def before_closer_def

lemma loop_exit_spawned:
  assumes "1 \<le> i \<and> (i \<le> n + 1 \<or> i = 1)" "\<not> i \<le> n"
  shows "[1..i - 1] = [1..n]"
proof -
  have "i = n + 1 \<or> (i = 1 \<and> n < 1)" using assms by auto
  then show ?thesis by auto
qed

lemma inv_main:
  assumes "inv n cap s" "main_step n s = Some s'"
  shows "inv n cap s'"
proof (cases "mainpc s")
  case (MFor i)
  show ?thesis
  proof (cases "i \<le> n")
    case True
    then have "s' = s\<lparr>mainpc := MAdd i\<rparr>" using assms(2) MFor by (simp add: main_step_def)
    then show ?thesis using assms(1) MFor True by (simp add: inv_def pc_defs)
  next
    case False
    then have s': "s' = s\<lparr>mainpc := MGoCloser\<rparr>" using assms(2) MFor by (simp add: main_step_def)
    have "[1..i - 1] = [1..n]"
      using assms(1) MFor False by (intro loop_exit_spawned) (simp_all add: inv_def pc_defs)
    then show ?thesis using assms(1) MFor s' by (simp add: inv_def pc_defs)
  qed
next
  case (MAdd i)
  then have "s' = s\<lparr>wg := wg s + 1, mainpc := MGo i\<rparr>" using assms(2) by (simp add: main_step_def)
  then show ?thesis using assms(1) MAdd by (simp add: inv_def pc_defs)
next
  case (MGo i)
  then have s': "s' = s\<lparr>workers := workers s @ [(i, WSend)], mainpc := MFor (i + 1)\<rparr>"
    using assms(2) by (simp add: main_step_def)
  have "[1..i] = [1..i - 1] @ [i]" using assms(1) MGo
    by (simp add: inv_def loop_ok_def upto_rec2)
  then show ?thesis using assms(1) MGo s' by (simp add: inv_def pc_defs)
next
  case MGoCloser
  then have "s' = s\<lparr>closer := CWait, mainpc := MRange\<rparr>" using assms(2) by (simp add: main_step_def)
  then show ?thesis using assms(1) MGoCloser by (simp add: inv_def pc_defs)
next
  case MRange
  show ?thesis
  proof (cases "messages s")
    case Nil
    then have "closed s" "s' = s\<lparr>mainpc := MExit\<rparr>"
      using assms(2) MRange by (simp_all add: main_step_def split: if_splits)
    then show ?thesis using assms(1) MRange Nil by (auto simp: inv_def pc_defs)
  next
    case (Cons m ms)
    then have "s' = s\<lparr>messages := ms, mainpc := MPrintln m\<rparr>"
      using assms(2) MRange by (simp add: main_step_def)
    then show ?thesis using assms(1) MRange Cons by (simp add: inv_def pc_defs)
  qed
next
  case (MPrintln m)
  then have "s' = s\<lparr>stdout := stdout s @ [println m], mainpc := MRange\<rparr>"
    using assms(2) by (simp add: main_step_def)
  then show ?thesis using assms(1) MPrintln by (simp add: inv_def pc_defs)
next
  case MExit
  then show ?thesis using assms by (simp add: main_step_def)
qed


lemma unsent_update_other:
  assumes "k < length ws" "snd (ws ! k) \<noteq> WSend" "p \<noteq> WSend"
  shows "unsent (ws[k := (i, p)]) = unsent ws"
proof -
  have "ws = take k ws @ ws ! k # drop (Suc k) ws"
    using assms by (simp add: id_take_nth_drop)
  then have "unsent ws = unsent (take k ws) @ unsent (drop (Suc k) ws)"
    using assms(2) by (metis (full_types) unsent_simps(2,3) append_Nil)
  moreover have "unsent (ws[k := (i, p)]) = unsent (take k ws) @ unsent (drop (Suc k) ws)"
    using assms by (simp add: upd_conv_take_nth_drop)
  ultimately show ?thesis by simp
qed

lemma unsent_update_sent:
  assumes "k < length ws" "ws ! k = (i, WSend)" "p \<noteq> WSend"
  shows "mset (unsent ws) = add_mset (worker_msg i) (mset (unsent (ws[k := (i, p)])))"
  using unsent_update [OF assms(1), of "(i, p)"] assms(2,3) by simp

lemma inv_worker:
  assumes "inv n cap s" "worker_step cap k s = Some s'" "mainpc s \<noteq> MExit"
  shows "inv n cap s'"
proof -
  have k: "k < length (workers s)"
    using assms(2) by (simp add: worker_step_def split: if_splits)
  obtain i p where w: "workers s ! k = (i, p)"
    by (cases "workers s ! k")
  have wg: "wg s = live (workers s) + add_pending (mainpc s)" "0 \<le> add_pending (mainpc s)"
    using assms(1) by (simp_all add: inv_def add_pending_def split: main_pc.splits)
  show ?thesis
  proof (cases p)
    case WSend
    have pos: "0 < live (workers s)"
      using k w WSend by (intro live_pos [of k]) simp_all
    have open_ch: "\<not> closed s"
      using assms(1) pos by (auto simp: inv_def)
    have fst_eq: "map fst ((workers s)[k := (i, WDone)]) = map fst (workers s)"
      using k w by (simp add: map_fst_update)
    have live_eq: "live ((workers s)[k := (i, WDone)]) = live (workers s)"
      using k w WSend by (simp add: live_update)
    have unsent_eq: "mset (unsent (workers s))
        = add_mset (worker_msg i) (mset (unsent ((workers s)[k := (i, WDone)])))"
      using k w WSend by (intro unsent_update_sent) simp_all
    show ?thesis
    proof (cases "length (messages s) < cap")
      case True
      then have "s' = s\<lparr>messages := messages s @ [worker_msg i],
                          workers := (workers s)[k := (i, WDone)]\<rparr>"
        using assms(2) k w WSend open_ch by (simp add: worker_step_def)
      then show ?thesis
        using assms(1,3) True fst_eq live_eq unsent_eq by (simp add: inv_def pc_defs)
    next
      case False
      then have hand: "mainpc s = MRange" "messages s = []"
          "s' = s\<lparr>mainpc := MPrintln (worker_msg i), workers := (workers s)[k := (i, WDone)]\<rparr>"
        using assms(2) k w WSend open_ch by (simp_all add: worker_step_def split: if_splits)
      then show ?thesis
        using assms(1) fst_eq live_eq unsent_eq by (simp add: inv_def pc_defs)
    qed
  next
    case WDone
    have pos: "0 < live (workers s)"
      using k w WDone by (intro live_pos [of k]) simp_all
    then have s': "s' = s\<lparr>wg := wg s - 1, workers := (workers s)[k := (i, WExit)]\<rparr>"
      using assms(2) k w WDone wg by (simp add: worker_step_def)
    have no_close: "closer s \<noteq> CClose" "closer s \<noteq> CExit"
      using assms(1) pos by (auto simp: inv_def)
    have fst_eq: "map fst ((workers s)[k := (i, WExit)]) = map fst (workers s)"
      using k w by (simp add: map_fst_update)
    have live_eq: "live ((workers s)[k := (i, WExit)]) = live (workers s) - 1"
      using k w WDone by (simp add: live_update)
    have unsent_eq: "unsent ((workers s)[k := (i, WExit)]) = unsent (workers s)"
      using k w WDone by (intro unsent_update_other) simp_all
    show ?thesis
      using assms(1,3) s' no_close fst_eq live_eq unsent_eq by (simp add: inv_def pc_defs)
  next
    case WExit
    then show ?thesis using assms(2) k w by (simp add: worker_step_def)
  qed
qed

lemma inv_closer:
  assumes "inv n cap s" "closer_step s = Some s'" "mainpc s \<noteq> MExit"
  shows "inv n cap s'"
proof (cases "closer s")
  case CNone
  then show ?thesis using assms(2) by (simp add: closer_step_def)
next
  case CWait
  then have "wg s = 0" and s': "s' = s\<lparr>closer := CClose\<rparr>"
    using assms(2) by (simp_all add: closer_step_def split: if_splits)
  moreover have "wg s = live (workers s) + add_pending (mainpc s)" "0 \<le> add_pending (mainpc s)"
    using assms(1) by (simp_all add: inv_def add_pending_def split: main_pc.splits)
  ultimately have "live (workers s) = 0"
    using live_nonneg [of "workers s"] by linarith
  then show ?thesis using assms(1,3) CWait s' by (simp add: inv_def pc_defs)
next
  case CClose
  then have "\<not> closed s" using assms(1) by (simp add: inv_def)
  then have "s' = s\<lparr>closed := True, closer := CExit\<rparr>"
    using assms(2) CClose by (simp add: closer_step_def)
  then show ?thesis using assms(1,3) CClose by (simp add: inv_def pc_defs)
next
  case CExit
  then show ?thesis using assms(2) by (simp add: closer_step_def)
qed

lemma inv_fire:
  assumes "inv n cap s" "fire n cap a s = Some s'"
  shows "inv n cap s'"
  using assms by (cases a) (auto simp: fire_def split: if_splits intro: inv_main inv_worker inv_closer)

lemma reachable_inv: "reachable n cap s \<Longrightarrow> inv n cap s"
  by (induction rule: reachable.induct) (auto intro: inv_init inv_fire)

section \<open>Every step consumes the termination measure; no reachable state is stuck\<close>

lemma work_simps [simp]:
  "work [] = 0"
  "work (ws @ vs) = work ws + work vs"
  "work (w # ws) = worker_weight (snd w) + work ws"
  by (simp_all add: work_def)

lemma work_update:
  assumes "k < length ws"
  shows "work (ws[k := y]) + worker_weight (snd (ws ! k)) = work ws + worker_weight (snd y)"
proof -
  have "ws = take k ws @ ws ! k # drop (Suc k) ws"
    using assms by (simp add: id_take_nth_drop)
  then have "work ws = work (take k ws) + worker_weight (snd (ws ! k)) + work (drop (Suc k) ws)"
    by (metis work_simps(2,3) add.assoc)
  moreover have "work (ws[k := y]) = work (take k ws) + worker_weight (snd y) + work (drop (Suc k) ws)"
    using assms by (simp add: upd_conv_take_nth_drop)
  ultimately show ?thesis by simp
qed

lemma main_decreases:
  assumes "inv n cap s" "main_step n s = Some s'"
  shows "steps_left n s' < steps_left n s"
proof (cases "mainpc s")
  case (MGo i)
  then have "1 \<le> i \<and> i \<le> n" using assms(1) by (simp add: inv_def loop_ok_def)
  then have "nat (n + 1 - i) = Suc (nat (n - i))" by linarith
  then show ?thesis using assms(2) MGo
    by (auto simp: main_step_def steps_left_def main_weight_def worker_weight_def)
next
  case MRange
  then show ?thesis using assms(2)
    by (auto simp: main_step_def steps_left_def main_weight_def split: list.splits if_splits)
qed (use assms(2) in \<open>auto simp: main_step_def steps_left_def main_weight_def closer_weight_def\<close>)

lemma worker_decreases:
  assumes "inv n cap s" "worker_step cap k s = Some s'"
  shows "steps_left n s' < steps_left n s"
proof -
  have k: "k < length (workers s)"
    using assms(2) by (simp add: worker_step_def split: if_splits)
  obtain i p where w: "workers s ! k = (i, p)"
    by (cases "workers s ! k")
  have wg: "wg s = live (workers s) + add_pending (mainpc s)" "0 \<le> add_pending (mainpc s)"
    using assms(1) by (simp_all add: inv_def add_pending_def split: main_pc.splits)
  show ?thesis
  proof (cases p)
    case WSend
    have pos: "0 < live (workers s)"
      using k w WSend by (intro live_pos [of k]) simp_all
    have open_ch: "\<not> closed s"
      using assms(1) pos by (auto simp: inv_def)
    have "work ((workers s)[k := (i, WDone)]) + 4 = work (workers s) + 1"
      using work_update [OF k, of "(i, WDone)"] w WSend by (simp add: worker_weight_def)
    then show ?thesis
      using assms(2) k w WSend open_ch
      by (auto simp: worker_step_def steps_left_def main_weight_def split: if_splits)
  next
    case WDone
    have pos: "0 < live (workers s)"
      using k w WDone by (intro live_pos [of k]) simp_all
    have "work ((workers s)[k := (i, WExit)]) + 1 = work (workers s)"
      using work_update [OF k, of "(i, WExit)"] w WDone by (simp add: worker_weight_def)
    then show ?thesis
      using assms(2) k w WDone pos wg
      by (auto simp: worker_step_def steps_left_def split: if_splits)
  next
    case WExit
    then show ?thesis using assms(2) k w by (simp add: worker_step_def)
  qed
qed

lemma closer_decreases:
  assumes "inv n cap s" "closer_step s = Some s'"
  shows "steps_left n s' < steps_left n s"
proof (cases "closer s")
  case CClose
  then have "\<not> closed s" using assms(1) by (simp add: inv_def)
  then show ?thesis using assms(2) CClose
    by (auto simp: closer_step_def steps_left_def closer_weight_def)
qed (use assms(2) in \<open>auto simp: closer_step_def steps_left_def closer_weight_def split: if_splits\<close>)

lemma fire_decreases:
  assumes "inv n cap s" "fire n cap a s = Some s'"
  shows "steps_left n s' < steps_left n s"
  using assms
  by (cases a) (auto simp: fire_def split: if_splits
      intro: main_decreases worker_decreases closer_decreases)

lemma live_pos_ex:
  assumes "0 < live ws"
  shows "\<exists>k < length ws. snd (ws ! k) \<noteq> WExit"
proof -
  have "filter (\<lambda>w. snd w \<noteq> WExit) ws \<noteq> []"
    using assms by (auto simp: live_def)
  then obtain w where "w \<in> set ws" "snd w \<noteq> WExit"
    by (metis (mono_tags, lifting) filter_False)
  then show ?thesis by (metis in_set_conv_nth)
qed

lemma progress:
  assumes "inv n cap s" "mainpc s \<noteq> MExit"
  shows "\<exists>a s'. fire n cap a s = Some s'"
proof -
  have np: "\<not> panicked s" using assms(1) by (simp add: inv_def)
  show ?thesis
  proof (cases "main_step n s")
    case (Some s')
    then have "fire n cap Main s = Some s'" using np assms(2) by (simp add: fire_def)
    then show ?thesis by blast
  next
    case None
    then have blocked: "mainpc s = MRange" "messages s = []" "\<not> closed s"
      using assms(2) by (auto simp: main_step_def split: main_pc.splits list.splits if_splits)
    then have c: "closer s = CWait \<or> closer s = CClose"
      using assms(1) by (cases "closer s") (auto simp: inv_def before_closer_def)
    show ?thesis
    proof (cases "closer_step s")
      case (Some s')
      then have "fire n cap Closer s = Some s'" using np assms(2) by (simp add: fire_def)
      then show ?thesis by blast
    next
      case None
      then have "closer s = CWait" "wg s \<noteq> 0"
        using c by (auto simp: closer_step_def split: if_splits)
      then have "0 < live (workers s)"
        using assms(1) blocked live_nonneg [of "workers s"] by (simp add: inv_def add_pending_def)
      then obtain k where k: "k < length (workers s)" "snd (workers s ! k) \<noteq> WExit"
        using live_pos_ex by blast
      then have "worker_step cap k s \<noteq> None"
        using blocked by (auto simp: worker_step_def split: prod.splits worker_pc.splits)
      then obtain s' where "fire n cap (Worker k) s = Some s'"
        using np assms(2) by (auto simp: fire_def)
      then show ?thesis by blast
    qed
  qed
qed

section \<open>Results are rendered injectively\<close>










lemma mset_eq_map_ex:
  "mset xs = image_mset f M \<Longrightarrow> \<exists>ys. xs = map f ys \<and> mset ys = M"
proof (induction xs arbitrary: M)
  case Nil
  then show ?case by simp
next
  case (Cons x xs)
  then have "image_mset f M = add_mset x (mset xs)" by simp
  then obtain M1 a where M: "M = add_mset a M1" "f a = x" "image_mset f M1 = mset xs"
    using msed_map_invR by metis
  then obtain ys where "xs = map f ys" "mset ys = M1"
    using Cons.IH [of M1] by auto
  then have "x # xs = map f (a # ys) \<and> mset (a # ys) = M" using M by simp
  then show ?case by (rule exI [of _ "a # ys"])
qed

section \<open>Closed and final states; schedules\<close>

lemma live_zero_unsent: "live ws = 0 \<Longrightarrow> unsent ws = []"
  by (induction ws) (auto simp: live_nonneg add_nonneg_eq_0_iff split: if_splits)

lemma live_zero_iff: "live ws = 0 \<longleftrightarrow> (\<forall>w \<in> set ws. snd w = WExit)"
  by (auto simp: live_def filter_empty_conv)

lemma inv_closed:
  assumes "inv n cap s" "closed s"
  shows "map fst (workers s) = [1..n]"
    and "\<forall>w \<in> set (workers s). snd w = WExit"
    and "mset (stdout s) + mset (map println (in_flight s)) = mset (map (\<lambda>i. println (worker_msg i)) [1..n])"
proof -
  have c: "closer s = CExit" "live (workers s) = 0"
    using assms by (simp_all add: inv_def)
  then have "\<not> before_closer (mainpc s)" using assms(1) by (simp add: inv_def)
  then have sp: "spawned n (mainpc s) = [1..n]"
    by (cases "mainpc s") (simp_all add: before_closer_def spawned_def)
  then show "map fst (workers s) = [1..n]" using assms(1) by (simp add: inv_def)
  show "\<forall>w \<in> set (workers s). snd w = WExit" using c by (simp add: live_zero_iff)
  have "unsent (workers s) = []" using c by (simp add: live_zero_unsent)
  then show "mset (stdout s) + mset (map println (in_flight s)) = mset (map (\<lambda>i. println (worker_msg i)) [1..n])"
    using assms(1) sp by (simp add: inv_def)
qed

lemma inv_exit:
  assumes "inv n cap s" "mainpc s = MExit"
  shows "closed s" "messages s = []"
    and "mset (stdout s) = mset (map (\<lambda>i. println (worker_msg i)) [1..n])"
proof -
  show c: "closed s" and m: "messages s = []" using assms by (auto simp: inv_def)
  show "mset (stdout s) = mset (map (\<lambda>i. println (worker_msg i)) [1..n])"
    using inv_closed(3) [OF assms(1) c] assms(2) m by (simp add: in_flight_def)
qed

lemma run_reachable:
  "reachable n cap s \<Longrightarrow> run n cap sched s = Some s' \<Longrightarrow> reachable n cap s'"
proof (induction sched arbitrary: s)
  case Nil
  then show ?case by simp
next
  case (Cons a sched)
  then show ?case by (auto split: option.splits intro: reach_step)
qed

lemma reachable_run: "reachable n cap s \<Longrightarrow> \<exists>sched. run n cap sched init = Some s"
proof (induction rule: reachable.induct)
  case reach_init
  have "run n cap [] init = Some init" by simp
  then show ?case by blast
next
  case (reach_step s a s')
  then obtain sched where "run n cap sched init = Some s" by blast
  moreover have "run n cap (xs @ [a]) t = (case run n cap xs t of None \<Rightarrow> None | Some u \<Rightarrow> fire n cap a u)" for xs t
    by (induction xs arbitrary: t) (auto split: option.splits)
  ultimately have "run n cap (sched @ [a]) init = Some s'"
    using reach_step by simp
  then show ?case by blast
qed

lemma run_bound:
  "inv n cap s \<Longrightarrow> run n cap sched s = Some s' \<Longrightarrow> length sched + steps_left n s' \<le> steps_left n s"
proof (induction sched arbitrary: s)
  case Nil
  then show ?case by simp
next
  case (Cons a sched)
  then obtain t where t: "fire n cap a s = Some t" "run n cap sched t = Some s'"
    by (auto split: option.splits)
  then have "inv n cap t" "steps_left n t < steps_left n s"
    using Cons.prems(1) by (auto intro: inv_fire fire_decreases)
  then show ?case using Cons.IH [of t] t by simp
qed

lemma steps_left_init: "steps_left n init = 7 * nat n + 5"
  by (simp add: steps_left_def init_def main_weight_def closer_weight_def)

section \<open>Results are handed over in the order of the sends, and never after the close\<close>

lemmas step_defs = fire_def main_step_def worker_step_def closer_step_def

lemmas fmt_defs = worker_msg_def fmt_d_def dec_nat.simps digit_char_def

lemma demo_run: "run 3 3 demo_schedule init = Some demo_final"
  by (simp add: demo_schedule_def demo_final_def init_def step_defs fmt_defs)

lemma demo_reachable: "reachable 3 3 demo_final"
  using run_reachable [OF reach_init demo_run] .

lemma inv_live_worker:
  assumes "inv n cap s" "k < length (workers s)" "snd (workers s ! k) \<noteq> WExit"
  shows "\<not> closed s" "0 < wg s"
proof -
  have pos: "0 < live (workers s)"
    using assms(2,3) by (rule live_pos)
  then show "\<not> closed s" using assms(1) by (auto simp: inv_def)
  have "0 \<le> add_pending (mainpc s)"
    by (simp add: add_pending_def split: main_pc.splits)
  then show "0 < wg s" using assms(1) pos by (simp add: inv_def)
qed

lemma fire_results:
  assumes "inv n cap s" "fire n cap a s = Some s'"
  shows "results s' = results s @ sent_by a s"
proof (cases a)
  case Main
  then have "main_step n s = Some s'" using assms(2) by (simp add: fire_def split: if_splits)
  then show ?thesis using Main
    by (cases "mainpc s")
      (auto simp: main_step_def results_def in_flight_def sent_by_def split: list.splits if_splits)
next
  case Closer
  then have "closer_step s = Some s'" using assms(2) by (simp add: fire_def split: if_splits)
  moreover have "closer s = CClose \<Longrightarrow> \<not> closed s" using assms(1) by (simp add: inv_def)
  ultimately show ?thesis using Closer
    by (cases "closer s")
      (auto simp: closer_step_def results_def in_flight_def sent_by_def split: if_splits)
next
  case (Worker k)
  then have ws: "worker_step cap k s = Some s'" using assms(2) by (simp add: fire_def split: if_splits)
  then have k: "k < length (workers s)"
    by (simp add: worker_step_def split: if_splits)
  obtain i p where w: "workers s ! k = (i, p)"
    by (cases "workers s ! k")
  show ?thesis
  proof (cases p)
    case WSend
    then have "\<not> closed s" using inv_live_worker(1) [OF assms(1) k] w by simp
    then show ?thesis using ws k w WSend Worker
      by (auto simp: worker_step_def results_def in_flight_def sent_by_def split: if_splits)
  next
    case WDone
    then have "0 < wg s" using inv_live_worker(2) [OF assms(1) k] w by simp
    then show ?thesis using ws k w WDone Worker
      by (auto simp: worker_step_def results_def in_flight_def sent_by_def split: if_splits)
  next
    case WExit
    then show ?thesis using ws k w by (simp add: worker_step_def)
  qed
qed

lemma closed_no_sender:
  assumes "inv n cap s" "closed s"
  shows "sent_by a s = []"
proof -
  have "\<forall>w \<in> set (workers s). snd w = WExit"
    using assms by (rule inv_closed(2))
  then show ?thesis by (auto simp: sent_by_def split: actor.splits)
qed

lemma fire_closed:
  assumes "inv n cap s" "fire n cap a s = Some s'" "closed s"
  shows "closed s'" "a = Main"
proof -
  have c: "closer s = CExit" "\<forall>w \<in> set (workers s). snd w = WExit"
    using assms(1,3) inv_closed(2) by (auto simp: inv_def)
  show "a = Main"
  proof (cases a)
    case (Worker k)
    have "worker_step cap k s = None"
    proof (cases "k < length (workers s)")
      case True
      then have "snd (workers s ! k) = WExit" using c(2) by simp
      then show ?thesis using True
        by (cases "workers s ! k") (simp add: worker_step_def)
    next
      case False
      then show ?thesis by (simp add: worker_step_def)
    qed
    then show ?thesis using assms(2) Worker by (simp add: fire_def split: if_splits)
  next
    case Closer
    then show ?thesis using assms(2) c by (simp add: fire_def closer_step_def split: if_splits)
  qed simp
  then show "closed s'" using assms(2,3)
    by (auto simp: fire_def main_step_def split: if_splits main_pc.splits list.splits)
qed

section \<open>Exactly \<open>n\<close> results, then the end of the stream\<close>

text \<open>
  Claim C1. With the loop bound \<open>n\<close> (3 in the source) as the number of tasks: every
  execution is finite (at most \<open>7n + 5\<close> steps), no reachable state is stuck before
  \<open>main\<close> has left its receive loop, and when it has, exactly \<open>n\<close> results have
  been printed, the channel is closed and empty, and no goroutine takes a further step.
  Once the channel is closed, all \<open>n\<close> results have been handed over and no step adds
  another one.
\<close>

theorem submit_yields_n_results:
  "(\<forall>sched s. run n cap sched init = Some s \<longrightarrow> length sched \<le> 7 * nat n + 5)
   \<and> (\<forall>s. reachable n cap s \<and> mainpc s \<noteq> MExit \<longrightarrow> (\<exists>a s'. fire n cap a s = Some s'))
   \<and> (\<forall>s. reachable n cap s \<and> mainpc s = MExit \<longrightarrow>
         length (stdout s) = nat n \<and> closed s \<and> messages s = [] \<and> (\<forall>a. fire n cap a s = None))
   \<and> (\<forall>s. reachable n cap s \<and> closed s \<longrightarrow>
         length (results s) = nat n
       \<and> (\<forall>a s'. fire n cap a s = Some s' \<longrightarrow> results s' = results s \<and> closed s'))"
proof (intro conjI allI impI)
  fix sched s
  assume "run n cap sched init = Some s"
  then have "length sched + steps_left n s \<le> steps_left n init"
    using run_bound [OF inv_init] by blast
  then show "length sched \<le> 7 * nat n + 5"
    by (simp add: steps_left_init)
next
  fix s
  assume "reachable n cap s \<and> mainpc s \<noteq> MExit"
  then show "\<exists>a s'. fire n cap a s = Some s'"
    using progress reachable_inv by blast
next
  fix s
  assume a: "reachable n cap s \<and> mainpc s = MExit"
  then have i: "inv n cap s" by (simp add: reachable_inv)
  have "mset (stdout s) = mset (map (\<lambda>i. println (worker_msg i)) [1..n])"
    using inv_exit(3) [OF i] a by simp
  then have "size (mset (stdout s)) = size (mset (map (\<lambda>i. println (worker_msg i)) [1..n]))"
    by simp
  then show "length (stdout s) = nat n" by simp
  show "closed s" "messages s = []" using inv_exit(1,2) [OF i] a by simp_all
  fix a
  show "fire n cap a s = None" using a by (simp add: fire_def)
next
  fix s
  assume asm: "reachable n cap s \<and> closed s"
  then have i: "inv n cap s" by (simp add: reachable_inv)
  have "mset (results s) = mset (map (\<lambda>i. println (worker_msg i)) [1..n])"
    using inv_closed(3) [OF i] asm by (simp add: results_def)
  then have "size (mset (results s)) = size (mset (map (\<lambda>i. println (worker_msg i)) [1..n]))"
    by simp
  then show "length (results s) = nat n" by simp
  fix a s'
  assume f: "fire n cap a s = Some s'"
  show "results s' = results s"
    using fire_results [OF i f] closed_no_sender [OF i, of a] asm by simp
  show "closed s'" using fire_closed(1) [OF i f] asm by simp
qed

theorem submit_yields_n_results_witness:
  "run 3 3 demo_schedule init = Some demo_final \<and> length demo_schedule \<le> 26
   \<and> reachable 3 3 demo_final \<and> mainpc demo_final = MExit
   \<and> length (stdout demo_final) = 3 \<and> closed demo_final \<and> messages demo_final = []
   \<and> fire 3 3 Main demo_final = None"
  using submit_yields_n_results [of 3 3] demo_run demo_reachable
  by (simp add: demo_final_def demo_schedule_def)

section \<open>No result is lost or duplicated; the channel is closed exactly once\<close>

lemma inv_results:
  assumes "inv n cap s"
  shows "mset (results s) + mset (map println (unsent (workers s)))
         = mset (map (\<lambda>i. println (worker_msg i)) (map fst (workers s)))"
  using assms by (simp add: inv_def results_def)




lemma stuck_is_exit:
  assumes "reachable n cap s" "\<forall>a. fire n cap a s = None"
  shows "mainpc s = MExit"
proof (rule ccontr)
  assume "mainpc s \<noteq> MExit"
  then have "\<exists>a s'. fire n cap a s = Some s'"
    using progress [OF reachable_inv [OF assms(1)]] by blast
  then show False using assms(2) by simp
qed



lemma buffered_run: "run 3 3 buffered_schedule init = Some buffered_pre"
  by (simp add: buffered_schedule_def buffered_pre_def init_def step_defs fmt_defs)

lemma buffered_reachable: "reachable 3 3 buffered_pre"
  using run_reachable [OF reach_init buffered_run] .

lemma buffered_close: "fire 3 3 Closer buffered_pre = Some buffered_post"
  by (simp add: buffered_pre_def buffered_post_def step_defs)

text \<open>
  Claim C3. The channel is closed exactly once, by the step \<open>close(messages)\<close> of the
  closer goroutine. That step is reached only when all \<open>n\<close> workers have sent their
  result into the channel and returned; the results may then still be buffered, not yet
  received by \<open>main\<close>. No step is taken on a closed channel that would close it again
  (which would panic) or send on it, so the results handed over no longer change, and the
  only goroutine that still steps is \<open>main\<close>, receiving and printing what is buffered.
  \<open>main\<close> leaves its receive loop only with the channel closed and all \<open>n\<close> results
  printed; every execution that cannot continue is in that state, and no step leaves it.
\<close>

theorem close_once_after_all_sent:
  assumes "reachable n cap s"
  shows "(closer s = CClose \<longrightarrow>
            \<not> closed s \<and> map fst (workers s) = [1..n] \<and> (\<forall>w \<in> set (workers s). snd w = WExit)
          \<and> mset (results s) = mset (map (\<lambda>i. println (worker_msg i)) [1..n]))
       \<and> (\<forall>a s'. fire n cap a s = Some s' \<longrightarrow>
            \<not> panicked s'
          \<and> ((\<not> closed s \<and> closed s') = (a = Closer \<and> closer s = CClose))
          \<and> (closed s \<longrightarrow> closed s' \<and> a = Main \<and> results s' = results s)
          \<and> (closed s \<and> length (stdout s) = nat n \<longrightarrow> stdout s' = stdout s \<and> mainpc s' = MExit))
       \<and> ((\<forall>a. fire n cap a s = None) \<longrightarrow> mainpc s = MExit \<and> closed s \<and> length (stdout s) = nat n)
       \<and> (mainpc s = MExit \<longrightarrow>
            closed s \<and> length (stdout s) = nat n \<and> (\<forall>a. fire n cap a s = None))"
proof -
  have i: "inv n cap s" using assms by (rule reachable_inv)
  have A: "\<not> closed s \<and> map fst (workers s) = [1..n] \<and> (\<forall>w \<in> set (workers s). snd w = WExit)
          \<and> mset (results s) = mset (map (\<lambda>i. println (worker_msg i)) [1..n])"
    if c: "closer s = CClose"
  proof -
    have l: "live (workers s) = 0" and nc: "\<not> closed s" and "\<not> before_closer (mainpc s)"
      using i c by (simp_all add: inv_def)
    then have sp: "map fst (workers s) = [1..n]"
      using i by (cases "mainpc s") (simp_all add: inv_def before_closer_def spawned_def)
    have "unsent (workers s) = []" using l by (rule live_zero_unsent)
    then have "mset (results s) = mset (map (\<lambda>i. println (worker_msg i)) [1..n])"
      using inv_results [OF i] sp by simp
    then show ?thesis using l nc sp by (simp add: live_zero_iff)
  qed
  have B: "\<not> panicked s'
          \<and> ((\<not> closed s \<and> closed s') = (a = Closer \<and> closer s = CClose))
          \<and> (closed s \<longrightarrow> closed s' \<and> a = Main \<and> results s' = results s)
          \<and> (closed s \<and> length (stdout s) = nat n \<longrightarrow> stdout s' = stdout s \<and> mainpc s' = MExit)"
    if f: "fire n cap a s = Some s'" for a s'
  proof -
    have i': "inv n cap s'" using i f by (rule inv_fire)
    then have np: "\<not> panicked s'" by (simp add: inv_def)
    have flip: "(\<not> closed s \<and> closed s') = (a = Closer \<and> closer s = CClose)"
    proof (cases a)
      case Main
      then show ?thesis using f
        by (auto simp: fire_def main_step_def split: if_splits main_pc.splits list.splits)
    next
      case (Worker k)
      then show ?thesis using f np
        by (auto simp: fire_def worker_step_def split: if_splits prod.splits worker_pc.splits)
    next
      case Closer
      then show ?thesis using f np i
        by (auto simp: fire_def closer_step_def inv_def split: if_splits closer_pc.splits)
    qed
    have cl: "closed s' \<and> a = Main \<and> results s' = results s" if c: "closed s"
      using fire_closed [OF i f c] fire_results [OF i f] closed_no_sender [OF i c, of a] by simp
    have dr: "stdout s' = stdout s \<and> mainpc s' = MExit" if c: "closed s" and len: "length (stdout s) = nat n"
    proof -
      have "mset (results s) = mset (map (\<lambda>i. println (worker_msg i)) [1..n])"
        using inv_closed(3) [OF i c] by (simp add: results_def)
      then have "size (mset (results s)) = size (mset (map (\<lambda>i. println (worker_msg i)) [1..n]))"
        by simp
      then have "in_flight s = []" using len by (simp add: results_def)
      then have "messages s = []" "\<And>m. mainpc s \<noteq> MPrintln m"
        by (auto simp: in_flight_def)
      moreover have "a = Main" using cl c by simp
      moreover have "\<not> before_closer (mainpc s)" using i c by (auto simp: inv_def)
      ultimately show ?thesis using f
        by (auto simp: fire_def main_step_def before_closer_def split: if_splits main_pc.splits)
    qed
    show ?thesis using np flip cl dr by blast
  qed
  have C: "mainpc s = MExit \<and> closed s \<and> length (stdout s) = nat n" if "\<forall>a. fire n cap a s = None"
  proof -
    have e: "mainpc s = MExit" using assms that by (rule stuck_is_exit)
    have "size (mset (stdout s)) = size (mset (map (\<lambda>i. println (worker_msg i)) [1..n]))"
      using inv_exit(3) [OF i e] by simp
    then show ?thesis using e inv_exit(1) [OF i e] by simp
  qed
  have D: "closed s \<and> length (stdout s) = nat n \<and> (\<forall>a. fire n cap a s = None)"
    if e: "mainpc s = MExit"
  proof -
    have "\<forall>a. fire n cap a s = None" using e by (simp add: fire_def)
    then show ?thesis using C by blast
  qed
  show ?thesis using A B C D by blast
qed

theorem close_once_after_all_sent_witness:
  "reachable 3 3 buffered_pre \<and> closer buffered_pre = CClose \<and> \<not> closed buffered_pre
   \<and> map fst (workers buffered_pre) = [1..3]
   \<and> mset (results buffered_pre) = mset (map (\<lambda>i. println (worker_msg i)) [1..3])
   \<and> fire 3 3 Closer buffered_pre = Some buffered_post
   \<and> closed buffered_post \<and> \<not> panicked buffered_post
   \<and> reachable 3 3 demo_final \<and> mainpc demo_final = MExit \<and> closed demo_final
   \<and> length (stdout demo_final) = nat 3 \<and> fire 3 3 Closer demo_final = None"
proof -
  have c: "closer buffered_pre = CClose" by (simp add: buffered_pre_def)
  have e: "mainpc demo_final = MExit" by (simp add: demo_final_def)
  note pre = close_once_after_all_sent [OF buffered_reachable]
  note fin = close_once_after_all_sent [OF demo_reachable]
  have "\<not> closed buffered_pre \<and> map fst (workers buffered_pre) = [1..3]
        \<and> mset (results buffered_pre) = mset (map (\<lambda>i. println (worker_msg i)) [1..3])"
    using pre c by blast
  moreover have "\<not> panicked buffered_post \<and> closed buffered_post"
    using pre c buffered_close by blast
  moreover have "closed demo_final \<and> length (stdout demo_final) = nat 3
        \<and> fire 3 3 Closer demo_final = None"
    using fin e by blast
  ultimately show ?thesis
    using c e buffered_reachable buffered_close demo_reachable by blast
qed

text \<open>
  The close does not wait for the consumer. In the execution \<open>buffered_schedule\<close> of the
  program as it stands in the source, the closer closes the channel while \<open>main\<close> has
  received and printed nothing and all three results sit in the buffer; the first result
  reaches \<open>main\<close>, and standard output, only after the close.
\<close>

theorem close_fires_before_any_receive:
  "run 3 3 buffered_schedule init = Some buffered_pre
   \<and> stdout buffered_pre = [] \<and> mainpc buffered_pre = MRange \<and> length (messages buffered_pre) = 3
   \<and> \<not> closed buffered_pre
   \<and> fire 3 3 Closer buffered_pre = Some buffered_post
   \<and> closed buffered_post \<and> stdout buffered_post = []
   \<and> run 3 3 [Main, Main] buffered_post
       = Some (buffered_post\<lparr>messages := [''Worker 2 completed task'', ''Worker 3 completed task''],
                             stdout := [println ''Worker 1 completed task'']\<rparr>)"
  using buffered_run buffered_close
  by (simp add: buffered_pre_def buffered_post_def step_defs)

section \<open>The program without workers, and the program of the source\<close>

lemma empty_run: "run 0 cap empty_schedule init = Some empty_final"
  by (simp add: empty_schedule_def empty_final_def init_def step_defs)

lemma upto_1_3: "[1..3] = [1, 2, 3::int]"
  by (simp add: upto.simps)

lemma worker_msg_123:
  "worker_msg 1 = ''Worker 1 completed task''"
  "worker_msg 2 = ''Worker 2 completed task''"
  "worker_msg 3 = ''Worker 3 completed task''"
  by (simp_all add: fmt_defs)

lemma inv_no_tasks:
  assumes "inv 0 cap s"
  shows "workers s = []" "stdout s = []" "messages s = []" "wg s = 0"
proof -
  have "spawned 0 (mainpc s) = []"
    using assms by (cases "mainpc s") (auto simp: inv_def spawned_def loop_ok_def)
  then show w: "workers s = []" using assms by (simp add: inv_def)
  then have "mset (stdout s) + mset (map println (in_flight s)) = {#}"
    using assms \<open>spawned 0 (mainpc s) = []\<close> by (simp add: inv_def)
  then show "stdout s = []" "messages s = []" by (simp_all add: in_flight_def)
  have "add_pending (mainpc s) = 0"
    using assms by (cases "mainpc s") (auto simp: inv_def add_pending_def loop_ok_def)
  then show "wg s = 0" using assms w by (simp add: inv_def)
qed

lemma run_snoc:
  "run n cap (xs @ [a]) s = (case run n cap xs s of None \<Rightarrow> None | Some u \<Rightarrow> fire n cap a u)"
  by (induction xs arbitrary: s) (auto split: option.splits)

lemma lt5_cases:
  assumes "j < (5::nat)"
  shows "j = 0 \<or> j = 1 \<or> j = 2 \<or> j = 3 \<or> j = 4"
  using assms by presburger

lemma empty_prefix_only:
  assumes "j < 5" "run 0 cap (take j empty_schedule) init = Some u" "fire 0 cap a u = Some t"
  shows "a = empty_schedule ! j"
  using lt5_cases [OF assms(1)]
proof (elim disjE)
  assume "j = 0"
  then show ?thesis using assms(2,3)
    by (cases a) (auto simp: empty_schedule_def init_def step_defs split: if_splits)
next
  assume "j = 1"
  then show ?thesis using assms(2,3)
    by (cases a) (auto simp: empty_schedule_def init_def step_defs split: if_splits)
next
  assume "j = 2"
  then show ?thesis using assms(2,3)
    by (cases a) (auto simp: empty_schedule_def init_def step_defs numeral_2_eq_2 split: if_splits)
next
  assume "j = 3"
  then show ?thesis using assms(2,3)
    by (cases a) (auto simp: empty_schedule_def init_def step_defs numeral_3_eq_3 split: if_splits)
next
  assume "j = 4"
  then show ?thesis using assms(2,3)
    by (cases a) (auto simp: empty_schedule_def init_def step_defs eval_nat_numeral split: if_splits)
qed

lemma empty_schedule_only:
  "run 0 cap sched init = Some s \<Longrightarrow> sched = take (length sched) empty_schedule"
proof (induction sched arbitrary: s rule: rev_induct)
  case Nil
  then show ?case by simp
next
  case (snoc a xs)
  then obtain u where u: "run 0 cap xs init = Some u" "fire 0 cap a u = Some s"
    by (auto simp: run_snoc split: option.splits)
  then have xs: "xs = take (length xs) empty_schedule" using snoc.IH by blast
  have "length (xs @ [a]) + steps_left 0 s \<le> steps_left 0 init"
    using run_bound [OF inv_init snoc.prems] .
  then have len: "length xs < 5" by (simp add: steps_left_init)
  have r: "run 0 cap (take (length xs) empty_schedule) init = Some u"
    using xs u(1) by simp
  have "a = empty_schedule ! length xs"
    by (rule empty_prefix_only [OF len r u(2)])
  moreover have "length empty_schedule = 5" by (simp add: empty_schedule_def)
  ultimately have "take (Suc (length xs)) empty_schedule = take (length xs) empty_schedule @ [a]"
    using len by (simp add: take_Suc_conv_app_nth)
  then show ?case using xs by simp
qed

text \<open>
  Claim C5. With no task (\<open>n = 0\<close>) no worker is ever launched, nothing is ever sent or
  printed and the wait-group counter stays 0; the program runs to its end in five steps
  (loop test, launch of the closer, \<open>wg.Wait()\<close> returning at once, \<open>close\<close>, \<open>main\<close>
  finding the channel closed), whatever the capacity of the channel. This is the only
  execution: every schedule that can be run is an initial segment of it.
\<close>

theorem no_tasks_closes_at_once:
  "(\<forall>s. reachable 0 cap s \<longrightarrow> workers s = [] \<and> stdout s = [] \<and> messages s = [] \<and> wg s = 0)
   \<and> run 0 cap [Main, Main, Closer, Closer, Main] init
       = Some \<lparr>mainpc = MExit, workers = [], closer = CExit, wg = 0, messages = [],
                closed = True, stdout = [], panicked = False\<rparr>
   \<and> (\<forall>sched s. run 0 cap sched init = Some s \<longrightarrow>
         length sched \<le> 5 \<and> sched = take (length sched) [Main, Main, Closer, Closer, Main])
   \<and> (\<forall>s. reachable 0 cap s \<and> (\<forall>a. fire 0 cap a s = None) \<longrightarrow> mainpc s = MExit \<and> closed s)"
proof (intro conjI allI impI)
  fix s
  assume "reachable 0 cap s"
  then have "inv 0 cap s" by (rule reachable_inv)
  then show "workers s = []" "stdout s = []" "messages s = []" "wg s = 0"
    by (rule inv_no_tasks)+
next
  show "run 0 cap [Main, Main, Closer, Closer, Main] init
       = Some \<lparr>mainpc = MExit, workers = [], closer = CExit, wg = 0, messages = [],
                closed = True, stdout = [], panicked = False\<rparr>"
    using empty_run [of cap] by (simp add: empty_schedule_def empty_final_def)
next
  fix sched s
  assume r: "run 0 cap sched init = Some s"
  then have "length sched + steps_left 0 s \<le> steps_left 0 init"
    using run_bound [OF inv_init] by blast
  then show "length sched \<le> 5" by (simp add: steps_left_init)
  show "sched = take (length sched) [Main, Main, Closer, Closer, Main]"
    using empty_schedule_only [OF r] by (simp add: empty_schedule_def)
next
  fix s
  assume a: "reachable 0 cap s \<and> (\<forall>a. fire 0 cap a s = None)"
  then show "mainpc s = MExit" using stuck_is_exit by blast
  then show "closed s" using a inv_exit(1) reachable_inv by blast
qed

theorem no_tasks_closes_at_once_witness:
  "reachable 0 3 empty_final \<and> workers empty_final = [] \<and> stdout empty_final = []
   \<and> (\<forall>a. fire 0 3 a empty_final = None) \<and> mainpc empty_final = MExit \<and> closed empty_final"
  using no_tasks_closes_at_once [of 3] run_reachable [OF reach_init empty_run [of 3]]
  by (simp add: empty_final_def fire_def)

text \<open>
  Claim C6. The program as it stands in the source (three workers with the identifiers 1,
  2 and 3, a channel of capacity 3): every execution ends, after at most 26 steps, with
  \<open>main\<close> out of its loop; then exactly three lines are printed, they are the messages of
  the identifiers 1, 2 and 3 in some order, each \<open>Worker i completed task\<close> for its own
  \<open>i\<close>, and the channel is closed and empty. The channel is never closed before the
  third result has been sent.
\<close>

theorem three_workers_scenario:
  "worker_msg 1 = ''Worker 1 completed task''
   \<and> worker_msg 2 = ''Worker 2 completed task''
   \<and> worker_msg 3 = ''Worker 3 completed task''
   \<and> (\<forall>s. reachable 3 3 s \<and> mainpc s = MExit \<longrightarrow>
         length (stdout s) = 3
       \<and> mset (stdout s) = {#println ''Worker 1 completed task'', println ''Worker 2 completed task'',
                             println ''Worker 3 completed task''#}
       \<and> (\<exists>ids. mset ids = {#1, 2, 3#} \<and> stdout s = map (\<lambda>i. println (worker_msg i)) ids)
       \<and> closed s \<and> messages s = [])
   \<and> (\<forall>s. reachable 3 3 s \<and> mainpc s \<noteq> MExit \<longrightarrow> (\<exists>a s'. fire 3 3 a s = Some s'))
   \<and> (\<forall>sched s. run 3 3 sched init = Some s \<longrightarrow> length sched \<le> 26)
   \<and> (\<forall>s. reachable 3 3 s \<and> closed s \<longrightarrow> length (results s) = 3)"
proof (intro conjI allI impI)
  show "worker_msg 1 = ''Worker 1 completed task''" "worker_msg 2 = ''Worker 2 completed task''"
    "worker_msg 3 = ''Worker 3 completed task''"
    by (rule worker_msg_123)+
next
  fix s
  assume a: "reachable 3 3 s \<and> mainpc s = MExit"
  then have i: "inv 3 3 s" by (simp add: reachable_inv)
  have m: "mset (stdout s) = mset (map (\<lambda>i. println (worker_msg i)) [1..3])"
    using inv_exit(3) [OF i] a by simp
  then show "mset (stdout s) = {#println ''Worker 1 completed task'', println ''Worker 2 completed task'',
                             println ''Worker 3 completed task''#}"
    by (simp add: upto_1_3 worker_msg_123)
  have "size (mset (stdout s)) = size (mset (map (\<lambda>i. println (worker_msg i)) [1..3]))"
    using m by simp
  then show "length (stdout s) = 3" by simp
  have "mset (stdout s) = image_mset (\<lambda>i. println (worker_msg i)) (mset [1..3])"
    using m by simp
  then have "\<exists>ids. stdout s = map (\<lambda>i. println (worker_msg i)) ids \<and> mset ids = mset [1..3]"
    by (rule mset_eq_map_ex)
  then show "\<exists>ids. mset ids = {#1, 2, 3#} \<and> stdout s = map (\<lambda>i. println (worker_msg i)) ids"
    by (auto simp: upto_1_3)
  show "closed s" "messages s = []" using inv_exit(1,2) [OF i] a by simp_all
next
  fix s
  assume "reachable 3 3 s \<and> mainpc s \<noteq> MExit"
  then show "\<exists>a s'. fire 3 3 a s = Some s'"
    using progress reachable_inv by blast
next
  fix sched s
  assume "run 3 3 sched init = Some s"
  then have "length sched + steps_left 3 s \<le> steps_left 3 init"
    using run_bound [OF inv_init] by blast
  then show "length sched \<le> 26" by (simp add: steps_left_init)
next
  fix s
  assume a: "reachable 3 3 s \<and> closed s"
  then have i: "inv 3 3 s" by (simp add: reachable_inv)
  have "mset (results s) = mset (map (\<lambda>i. println (worker_msg i)) [1..3])"
    using inv_closed(3) [OF i] a by (simp add: results_def)
  then have "size (mset (results s)) = size (mset (map (\<lambda>i. println (worker_msg i)) [1..3]))"
    by simp
  then show "length (results s) = 3" by simp
qed

theorem three_workers_scenario_witness:
  "reachable 3 3 demo_final \<and> mainpc demo_final = MExit \<and> closed demo_final
   \<and> stdout demo_final = [println ''Worker 3 completed task'', println ''Worker 1 completed task'',
                           println ''Worker 2 completed task'']
   \<and> mset (stdout demo_final) = {#println ''Worker 1 completed task'', println ''Worker 2 completed task'',
                             println ''Worker 3 completed task''#}
   \<and> run 3 3 demo_schedule init = Some demo_final \<and> length demo_schedule = 26"
  using three_workers_scenario demo_reachable demo_run
  by (simp add: demo_final_def demo_schedule_def)

section \<open>Every order of arrival is possible\<close>

lemma looping_reachable: "j \<le> nat n \<Longrightarrow> reachable n cap (looping j)"
proof (induction j)
  case 0
  have "looping 0 = init" by (simp add: looping_def init_def)
  then show ?case by (simp add: reach_init)
next
  case (Suc j)
  then have le: "int j + 1 \<le> n" and r: "reachable n cap (looping j)" by simp_all
  have "[1..int j + 1] = [1..int j] @ [int j + 1]"
    by (simp add: upto_rec2)
  then have "run n cap [Main, Main, Main] (looping j) = Some (looping (Suc j))"
    using le by (simp add: looping_def step_defs add.commute)
  then show ?case using r run_reachable by blast
qed

lemma live_all_send: "live (map (\<lambda>i. (i, WSend)) xs) = int (length xs)"
  by (induction xs) simp_all

lemma receiving_reachable: "reachable n cap (receiving (map (\<lambda>i. (i, WSend)) [1..n]) [])"
proof -
  have eq: "[1..int (nat n)] = [1..n]" by (cases "0 \<le> n") simp_all
  have "\<not> int (nat n) + 1 \<le> n" by simp
  then have "run n cap [Main, Main] (looping (nat n)) = Some (receiving (map (\<lambda>i. (i, WSend)) [1..n]) [])"
    using eq by (simp add: looping_def receiving_def step_defs live_all_send)
  then show ?thesis using looping_reachable [of "nat n" n cap] run_reachable by blast
qed

lemma deliver_one:
  assumes "reachable n cap (receiving ws out)" "k < length ws" "ws ! k = (i, WSend)"
  shows "reachable n cap (receiving (ws[k := (i, WExit)]) (out @ [println (worker_msg i)]))"
proof -
  have "0 < live ws" using assms(2,3) by (intro live_pos [of k]) simp_all
  moreover have "live (ws[k := (i, WExit)]) = live ws - 1"
    using assms(2,3) by (simp add: live_update)
  ultimately have
    "run n cap (if 0 < cap then [Worker k, Worker k, Main, Main] else [Worker k, Worker k, Main])
       (receiving ws out)
     = Some (receiving (ws[k := (i, WExit)]) (out @ [println (worker_msg i)]))"
    using assms(2,3) by (simp add: receiving_def step_defs)
  then show ?thesis using assms(1) run_reachable by blast
qed

lemma deliver_all:
  assumes "reachable n cap (receiving ws out)" "distinct ids" "\<forall>i \<in> set ids. (i, WSend) \<in> set ws"
  shows "\<exists>ws'. reachable n cap (receiving ws' (out @ map (\<lambda>i. println (worker_msg i)) ids))
               \<and> live ws' = live ws - int (length ids)"
  using assms
proof (induction ids arbitrary: ws out)
  case Nil
  then show ?case by auto
next
  case (Cons i ids)
  then obtain k where k: "k < length ws" "ws ! k = (i, WSend)"
    by (auto simp: in_set_conv_nth)
  let ?ws = "ws[k := (i, WExit)]"
  have r: "reachable n cap (receiving ?ws (out @ [println (worker_msg i)]))"
    using Cons.prems(1) k by (rule deliver_one)
  have rest: "\<forall>j \<in> set ids. (j, WSend) \<in> set ?ws"
  proof
    fix j assume j: "j \<in> set ids"
    then have "j \<noteq> i" using Cons.prems(2) by auto
    moreover have "(j, WSend) \<in> set ws"
      using Cons.prems(3) j by simp
    then obtain k' where "k' < length ws" "ws ! k' = (j, WSend)"
      by (metis in_set_conv_nth)
    ultimately have "k' < length ?ws" "?ws ! k' = (j, WSend)"
      using k \<open>k' < length ws\<close> \<open>ws ! k' = (j, WSend)\<close> by (auto simp: nth_list_update)
    then show "(j, WSend) \<in> set ?ws" by (metis nth_mem)
  qed
  have "distinct ids" using Cons.prems(2) by simp
  then obtain ws' where
    "reachable n cap (receiving ws' ((out @ [println (worker_msg i)]) @ map (\<lambda>i. println (worker_msg i)) ids))"
    "live ws' = live ?ws - int (length ids)"
    using Cons.IH [OF r _ rest] by blast
  moreover have "live ?ws = live ws - 1" using k by (simp add: live_update)
  ultimately show ?case by auto
qed

lemma finish_run:
  assumes "reachable n cap (receiving ws out)" "live ws = 0"
  shows "reachable n cap (finished ws out)"
proof -
  have "run n cap [Closer, Closer, Main] (receiving ws out) = Some (finished ws out)"
    using assms(2) by (simp add: receiving_def finished_def step_defs)
  then show ?thesis using assms(1) run_reachable by blast
qed

lemma every_order_possible:
  assumes "mset ids = mset [1..n]"
  shows "\<exists>s. reachable n cap s \<and> mainpc s = MExit \<and> stdout s = map (\<lambda>i. println (worker_msg i)) ids"
proof -
  let ?ws = "map (\<lambda>i. (i, WSend)) [1..n]"
  have d: "distinct ids"
    using assms mset_eq_imp_distinct_iff [of ids "[1..n]"] by simp
  have "set ids = set [1..n]" using assms by (rule mset_eq_setD)
  then have m: "\<forall>i \<in> set ids. (i, WSend) \<in> set ?ws" by auto
  have len: "length ids = length [1..n]" using assms by (rule mset_eq_length)
  obtain ws' where w: "reachable n cap (receiving ws' ([] @ map (\<lambda>i. println (worker_msg i)) ids))"
      "live ws' = live ?ws - int (length ids)"
    using deliver_all [OF receiving_reachable d m] by blast
  then have "live ws' = 0" using len by (simp add: live_all_send)
  then have "reachable n cap (finished ws' (map (\<lambda>i. println (worker_msg i)) ids))"
    using w(1) finish_run by simp
  then show ?thesis by (auto simp: finished_def intro!: exI)
qed

lemma results_at_exit:
  assumes "inv n cap s" "mainpc s = MExit"
  shows "results s = stdout s"
  using assms inv_exit(2) [OF assms] by (simp add: results_def in_flight_def)

text \<open>
  Claim C7. Results reach standard output in the order in which the workers completed their
  send, not in the order of launch: the sequence of results handed over (printed, received
  or buffered) only ever grows at its end, by the result of the worker that sends in that
  step, and the printed lines are always an initial segment of it. Which worker sends
  first is not determined: for every ordering of the identifiers \<open>1\<close> to \<open>n\<close> there is an
  execution that prints the results in exactly that order, and every execution prints them
  in one such order. So only the multiset of the results, not their order, is fixed.
\<close>

theorem completion_order_not_fixed:
  "(\<forall>s a s'. reachable n cap s \<and> fire n cap a s = Some s' \<longrightarrow> results s' = results s @ sent_by a s)
   \<and> (\<forall>s. reachable n cap s \<longrightarrow>
         results s = stdout s @ map println (in_flight s) \<and> (mainpc s = MExit \<longrightarrow> results s = stdout s))
   \<and> (\<forall>ids. mset ids = mset [1..n] \<longrightarrow>
         (\<exists>s. reachable n cap s \<and> mainpc s = MExit \<and> stdout s = map (\<lambda>i. println (worker_msg i)) ids))
   \<and> (\<forall>s. reachable n cap s \<and> mainpc s = MExit \<longrightarrow>
         (\<exists>ids. mset ids = mset [1..n] \<and> stdout s = map (\<lambda>i. println (worker_msg i)) ids))"
proof (intro conjI allI impI)
  fix s a s'
  assume "reachable n cap s \<and> fire n cap a s = Some s'"
  then show "results s' = results s @ sent_by a s"
    using fire_results reachable_inv by blast
next
  fix s
  show "results s = stdout s @ map println (in_flight s)" by (simp add: results_def)
next
  fix s
  assume "reachable n cap s" "mainpc s = MExit"
  then show "results s = stdout s"
    using results_at_exit reachable_inv by blast
next
  fix ids :: "int list"
  assume "mset ids = mset [1..n]"
  then show "\<exists>s. reachable n cap s \<and> mainpc s = MExit \<and> stdout s = map (\<lambda>i. println (worker_msg i)) ids"
    by (rule every_order_possible)
next
  fix s
  assume a: "reachable n cap s \<and> mainpc s = MExit"
  then have i: "inv n cap s" by (simp add: reachable_inv)
  have "mset (stdout s) = image_mset (\<lambda>i. println (worker_msg i)) (mset [1..n])"
    using inv_exit(3) [OF i] a by simp
  then have "\<exists>ids. stdout s = map (\<lambda>i. println (worker_msg i)) ids \<and> mset ids = mset [1..n]"
    by (rule mset_eq_map_ex)
  then show "\<exists>ids. mset ids = mset [1..n] \<and> stdout s = map (\<lambda>i. println (worker_msg i)) ids"
    by blast
qed

theorem completion_order_not_fixed_witness:
  "mset [3, 2, 1] = mset [1..3]
   \<and> (\<exists>s. reachable 3 3 s \<and> mainpc s = MExit
          \<and> stdout s = [println ''Worker 3 completed task'', println ''Worker 2 completed task'',
                         println ''Worker 1 completed task''])
   \<and> (\<exists>s. reachable 3 3 s \<and> mainpc s = MExit
          \<and> stdout s = [println ''Worker 1 completed task'', println ''Worker 2 completed task'',
                         println ''Worker 3 completed task''])"
proof -
  have p: "mset [3, 2, 1] = mset [1..3]" "mset [1, 2, 3] = mset [1..3]"
    by (simp_all add: upto_1_3)
  have every: "\<forall>ids. mset ids = mset [1..3] \<longrightarrow>
      (\<exists>s. reachable 3 3 s \<and> mainpc s = MExit \<and> stdout s = map (\<lambda>i. println (worker_msg i)) ids)"
    using completion_order_not_fixed [of 3 3] by blast
  have "\<exists>s. reachable 3 3 s \<and> mainpc s = MExit \<and> stdout s = map (\<lambda>i. println (worker_msg i)) [3, 2, 1]"
    using every p(1) by blast
  moreover have "\<exists>s. reachable 3 3 s \<and> mainpc s = MExit \<and> stdout s = map (\<lambda>i. println (worker_msg i)) [1, 2, 3]"
    using every p(2) by blast
  ultimately show ?thesis using p(1) by (simp add: worker_msg_123)
qed

end
